theory Spec2Isabelle
  imports Main "HOL-Library.AList" "HOL-Library.Multiset"
begin

section \<open>Iterators\<close>

text \<open>
  A Python iterator is a cursor with a \<open>__next__\<close> method. It is modelled as a state
  (the cursor) and a step function on it. One step either hands over an item
  (\<open>Yield\<close>), signals exhaustion (\<open>Stop\<close>, Python's StopIteration), or goes round
  the generator's loop once without handing anything over (\<open>Skip\<close>: the item pulled
  from upstream was dropped by an \<open>if\<close>). A step of a generator makes at most one
  step of its upstream, so every step function is total; only the consumers loop.
\<close>

datatype 'a pull = Yield 'a | Skip | Stop

type_synonym ('a, 's) next_fn = "'s \<Rightarrow> 'a pull \<times> 's"

text \<open>The iterator of a list: hands over the head and keeps the tail.\<close>

fun list_next :: "('a, 'a list) next_fn" where
  "list_next [] = (Stop, [])"
| "list_next (x # xs) = (Yield x, xs)"

text \<open>
  The iterator of the builtin \<open>range(start, stop, step)\<close>, for a non-zero step: the
  cursor is the next value to hand over.
\<close>

definition range_next :: "int \<Rightarrow> int \<Rightarrow> (int, int) next_fn" where
  "range_next stop step cur =
     (if (0 < step \<and> cur < stop) \<or> (step < 0 \<and> stop < cur)
      then (Yield cur, cur + step) else (Stop, cur))"

text \<open>
  A source instrumented to count the elements drawn from it: the counter goes up by one
  each time the wrapped iterator hands over an item.
\<close>

definition counting :: "('a, 's) next_fn \<Rightarrow> ('a, nat \<times> 's) next_fn" where
  "counting nxt = (\<lambda>(pulls, it).
     case nxt it of
       (Yield item, it') \<Rightarrow> (Yield item, (Suc pulls, it'))
     | (Skip, it') \<Rightarrow> (Skip, (pulls, it'))
     | (Stop, it') \<Rightarrow> (Stop, (pulls, it')))"

text \<open>
  A generator object: once its body has returned it is finished, and every later
  \<open>__next__\<close> signals exhaustion without running the body (or touching upstream) again.
  The state is the finished flag and the frame of the body.
\<close>

definition generator :: "('a, 's) next_fn \<Rightarrow> ('a, bool \<times> 's) next_fn" where
  "generator body = (\<lambda>(finished, frame).
     if finished then (Stop, (True, frame))
     else (case body frame of
             (Yield item, frame') \<Rightarrow> (Yield item, (False, frame'))
           | (Skip, frame') \<Rightarrow> (Skip, (False, frame'))
           | (Stop, frame') \<Rightarrow> (Stop, (True, frame'))))"

subsection \<open>Consumers\<close>

text \<open>
  \<open>next(it, None)\<close>: run the iterator to its next item. The loop need not end (a
  filter over an infinite source that never matches), so not returning is \<open>None\<close>.
\<close>

partial_function (option) next_item :: "('a, 's) next_fn \<Rightarrow> 's \<Rightarrow> ('a option \<times> 's) option" where
  "next_item nxt it =
     (case nxt it of
        (Yield item, it') \<Rightarrow> Some (Some item, it')
      | (Skip, it') \<Rightarrow> next_item nxt it'
      | (Stop, it') \<Rightarrow> Some (None, it'))"

text \<open>
  \<open>for item in it: acc = body(acc, item)\<close>, run to exhaustion: the loop behind
  \<open>list\<close>, \<open>functools.reduce\<close>, \<open>sum\<close> and the loop of \<open>group_by\<close>.
\<close>

partial_function (option) for_loop ::
  "('a, 's) next_fn \<Rightarrow> ('b \<Rightarrow> 'a \<Rightarrow> 'b) \<Rightarrow> 's \<Rightarrow> 'b \<Rightarrow> ('b \<times> 's) option" where
  "for_loop nxt body it acc =
     (case nxt it of
        (Yield item, it') \<Rightarrow> for_loop nxt body it' (body acc item)
      | (Skip, it') \<Rightarrow> for_loop nxt body it' acc
      | (Stop, it') \<Rightarrow> Some (acc, it'))"

text \<open>The builtins \<open>any\<close> and \<open>all\<close> over an iterator of truth values: both short-circuit.\<close>

partial_function (option) py_any :: "(bool, 's) next_fn \<Rightarrow> 's \<Rightarrow> (bool \<times> 's) option" where
  "py_any nxt it =
     (case nxt it of
        (Yield b, it') \<Rightarrow> if b then Some (True, it') else py_any nxt it'
      | (Skip, it') \<Rightarrow> py_any nxt it'
      | (Stop, it') \<Rightarrow> Some (False, it'))"

partial_function (option) py_all :: "(bool, 's) next_fn \<Rightarrow> 's \<Rightarrow> (bool \<times> 's) option" where
  "py_all nxt it =
     (case nxt it of
        (Yield b, it') \<Rightarrow> if b then py_all nxt it' else Some (False, it')
      | (Skip, it') \<Rightarrow> py_all nxt it'
      | (Stop, it') \<Rightarrow> Some (True, it'))"

section \<open>The collection\<close>

text \<open>
  \<open>LazyCollection.__init__\<close> stores the iterable it is given in \<open>_source\<close>. The model
  keeps of that iterable the \<open>__next__\<close> of its iterator, the cursor an iteration
  starts from, and whether \<open>iter(_source)\<close> makes a fresh iterator each time (a list, a
  range) or returns the one object itself (a generator, whose cursor every iteration
  moves for good).
\<close>

record ('a, 's) LazyCollection =
  source_next :: "('a, 's) next_fn"
  source_cursor :: 's
  source_reiterable :: bool

definition of_list :: "'a list \<Rightarrow> ('a, 'a list) LazyCollection" where
  "of_list xs = \<lparr>source_next = list_next, source_cursor = xs, source_reiterable = True\<rparr>"

definition of_iterator :: "('a, 's) next_fn \<Rightarrow> 's \<Rightarrow> ('a, 's) LazyCollection" where
  "of_iterator nxt it = \<lparr>source_next = nxt, source_cursor = it, source_reiterable = False\<rparr>"

definition of_generator :: "('a, 's) next_fn \<Rightarrow> 's \<Rightarrow> ('a, bool \<times> 's) LazyCollection" where
  "of_generator body frame = of_iterator (generator body) (False, frame)"

text \<open>\<open>__iter__\<close>: the cursor an iteration of the collection starts from.\<close>

definition iter :: "('a, 's) LazyCollection \<Rightarrow> 's" where
  "iter self = source_cursor self"

text \<open>
  The collection once a consumer has driven its iterator to the cursor \<open>it'\<close>: a
  re-iterable source is untouched, a one-shot source stays where the consumer left it.
\<close>

definition consumed :: "('a, 's) LazyCollection \<Rightarrow> 's \<Rightarrow> ('a, 's) LazyCollection" where
  "consumed self it' = (if source_reiterable self then self else self\<lparr>source_cursor := it'\<rparr>)"

subsection \<open>Lazy operators\<close>

text \<open>
  Every operator returns a collection over a generator, which is one-shot. The frame of
  the generator holds the cursor of the upstream iterator, taken from \<open>iter(self)\<close>: the
  result owns its upstream, and two results pulling from one shared one-shot upstream
  are not modelled.
\<close>

text \<open>\<open>(item for item in self if predicate(item))\<close>\<close>

definition filter_generator :: "('a \<Rightarrow> bool) \<Rightarrow> ('a, 's) next_fn \<Rightarrow> ('a, 's) next_fn" where
  "filter_generator predicate nxt = (\<lambda>it.
     case nxt it of
       (Yield item, it') \<Rightarrow> if predicate item then (Yield item, it') else (Skip, it')
     | (Skip, it') \<Rightarrow> (Skip, it')
     | (Stop, it') \<Rightarrow> (Stop, it'))"

definition filter_lc :: "('a, 's) LazyCollection \<Rightarrow> ('a \<Rightarrow> bool) \<Rightarrow> ('a, bool \<times> 's) LazyCollection" where
  "filter_lc self predicate = of_generator (filter_generator predicate (source_next self)) (iter self)"

text \<open>\<open>(transform(item) for item in self)\<close>\<close>

definition map_generator :: "('a \<Rightarrow> 'b) \<Rightarrow> ('a, 's) next_fn \<Rightarrow> ('b, 's) next_fn" where
  "map_generator transform nxt = (\<lambda>it.
     case nxt it of
       (Yield item, it') \<Rightarrow> (Yield (transform item), it')
     | (Skip, it') \<Rightarrow> (Skip, it')
     | (Stop, it') \<Rightarrow> (Stop, it'))"

definition map_lc :: "('a, 's) LazyCollection \<Rightarrow> ('a \<Rightarrow> 'b) \<Rightarrow> ('b, bool \<times> 's) LazyCollection" where
  "map_lc self transform = of_generator (map_generator transform (source_next self)) (iter self)"

text \<open>
  \<open>take_generator\<close>: the frame holds the counter of \<open>enumerate\<close> and the upstream
  cursor. The \<open>for\<close> pulls the next pair first and compares its index with \<open>n\<close> after.
\<close>

definition take_generator :: "int \<Rightarrow> ('a, 's) next_fn \<Rightarrow> ('a, int \<times> 's) next_fn" where
  "take_generator n nxt = (\<lambda>(i, it).
     case nxt it of
       (Yield item, it') \<Rightarrow> if i \<ge> n then (Stop, (i + 1, it')) else (Yield item, (i + 1, it'))
     | (Skip, it') \<Rightarrow> (Skip, (i, it'))
     | (Stop, it') \<Rightarrow> (Stop, (i, it')))"

definition take_lc :: "('a, 's) LazyCollection \<Rightarrow> int \<Rightarrow> ('a, bool \<times> int \<times> 's) LazyCollection" where
  "take_lc self n = of_generator (take_generator n (source_next self)) (0, iter self)"

definition skip_generator :: "int \<Rightarrow> ('a, 's) next_fn \<Rightarrow> ('a, int \<times> 's) next_fn" where
  "skip_generator n nxt = (\<lambda>(i, it).
     case nxt it of
       (Yield item, it') \<Rightarrow> if i \<ge> n then (Yield item, (i + 1, it')) else (Skip, (i + 1, it'))
     | (Skip, it') \<Rightarrow> (Skip, (i, it'))
     | (Stop, it') \<Rightarrow> (Stop, (i, it')))"

definition skip :: "('a, 's) LazyCollection \<Rightarrow> int \<Rightarrow> ('a, bool \<times> int \<times> 's) LazyCollection" where
  "skip self n = of_generator (skip_generator n (source_next self)) (0, iter self)"

text \<open>
  \<open>chunk_generator\<close>: the frame holds the list \<open>chunk\<close>, whether the \<open>for\<close> loop is
  still running, and the upstream cursor. After the loop a non-empty \<open>chunk\<close> is handed
  over once, then the body returns.
\<close>

definition chunk_generator :: "int \<Rightarrow> ('a, 's) next_fn \<Rightarrow> ('a list, 'a list \<times> bool \<times> 's) next_fn" where
  "chunk_generator chunk_size nxt = (\<lambda>(chunk, looping, it).
     if looping then
       (case nxt it of
          (Yield item, it') \<Rightarrow>
            (let chunk' = chunk @ [item] in
             if int (length chunk') = chunk_size then (Yield chunk', ([], True, it'))
             else (Skip, (chunk', True, it')))
        | (Skip, it') \<Rightarrow> (Skip, (chunk, True, it'))
        | (Stop, it') \<Rightarrow>
            if chunk \<noteq> [] then (Yield chunk, (chunk, False, it'))
            else (Stop, (chunk, False, it')))
     else (Stop, (chunk, False, it)))"

definition chunk :: "('a, 's) LazyCollection \<Rightarrow> int \<Rightarrow> ('a list, bool \<times> 'a list \<times> bool \<times> 's) LazyCollection" where
  "chunk self chunk_size = of_generator (chunk_generator chunk_size (source_next self)) ([], True, iter self)"

definition paginate ::
  "('a, 's) LazyCollection \<Rightarrow> int \<Rightarrow> int \<Rightarrow> ('a, bool \<times> int \<times> bool \<times> int \<times> 's) LazyCollection" where
  "paginate self page per_page = take_lc (skip self ((page - 1) * per_page)) per_page"

subsection \<open>Terminal operators\<close>

text \<open>
  A terminal operator returns its value together with the collection as the operator
  leaves it; \<open>None\<close> is an evaluation that does not return.
\<close>

definition collect :: "('a, 's) LazyCollection \<Rightarrow> ('a list \<times> ('a, 's) LazyCollection) option" where
  "collect self =
     map_option (\<lambda>(items, it'). (items, consumed self it'))
       (for_loop (source_next self) (\<lambda>acc item. acc @ [item]) (iter self) [])"

definition first :: "('a, 's) LazyCollection \<Rightarrow> ('a option \<times> ('a, 's) LazyCollection) option" where
  "first self =
     map_option (\<lambda>(item, it'). (item, consumed self it'))
       (next_item (source_next self) (iter self))"

definition count_lc :: "('a, 's) LazyCollection \<Rightarrow> (int \<times> ('a, 's) LazyCollection) option" where
  "count_lc self =
     map_option (\<lambda>(total, (finished, it')). (total, consumed self it'))
       (for_loop (generator (map_generator (\<lambda>_. 1) (source_next self))) (\<lambda>acc item. acc + item)
          (False, iter self) 0)"

definition reduce ::
  "('a, 's) LazyCollection \<Rightarrow> ('b \<Rightarrow> 'a \<Rightarrow> 'b) \<Rightarrow> 'b \<Rightarrow> ('b \<times> ('a, 's) LazyCollection) option" where
  "reduce self reducer initial =
     map_option (\<lambda>(acc, it'). (acc, consumed self it'))
       (for_loop (source_next self) reducer (iter self) initial)"

definition any_lc ::
  "('a, 's) LazyCollection \<Rightarrow> ('a \<Rightarrow> bool) option \<Rightarrow> (bool \<times> ('a, 's) LazyCollection) option" where
  "any_lc self predicate =
     (let predicate' = (case predicate of None \<Rightarrow> (\<lambda>x. True) | Some p \<Rightarrow> p) in
      map_option (\<lambda>(b, (finished, it')). (b, consumed self it'))
        (py_any (generator (map_generator predicate' (source_next self))) (False, iter self)))"

definition all_lc ::
  "('a, 's) LazyCollection \<Rightarrow> ('a \<Rightarrow> bool) \<Rightarrow> (bool \<times> ('a, 's) LazyCollection) option" where
  "all_lc self predicate =
     map_option (\<lambda>(b, (finished, it')). (b, consumed self it'))
       (py_all (generator (map_generator predicate (source_next self))) (False, iter self))"

text \<open>
  \<open>group_by\<close>: a Python dict keeps its keys in insertion order, so \<open>result\<close> is an
  association list: \<open>AList.update\<close> overwrites a key in place and puts a new key last.
\<close>

definition group_by_body :: "('a \<Rightarrow> 'k) \<Rightarrow> ('k \<times> 'a list) list \<Rightarrow> 'a \<Rightarrow> ('k \<times> 'a list) list" where
  "group_by_body key_func result item =
     (let key = key_func item;
          result' = (if map_of result key = None then AList.update key [] result else result)
      in AList.map_entry key (\<lambda>members. members @ [item]) result')"

definition group_by ::
  "('a, 's) LazyCollection \<Rightarrow> ('a \<Rightarrow> 'k) \<Rightarrow> (('k \<times> 'a list) list \<times> ('a, 's) LazyCollection) option" where
  "group_by self key_func =
     map_option (\<lambda>(result, it'). (result, consumed self it'))
       (for_loop (source_next self) (group_by_body key_func) (iter self) [])"

subsection \<open>The range factory\<close>

datatype error = ValueError

text \<open>The builtin \<open>range(start, stop, step)\<close>: a zero step is refused.\<close>

record range_object =
  range_start :: int
  range_stop :: int
  range_step :: int

definition py_range :: "int \<Rightarrow> int \<Rightarrow> int \<Rightarrow> error + range_object" where
  "py_range start stop step =
     (if step = 0 then Inl ValueError
      else Inr \<lparr>range_start = start, range_stop = stop, range_step = step\<rparr>)"

definition of_range :: "range_object \<Rightarrow> (int, int) LazyCollection" where
  "of_range r =
     \<lparr>source_next = range_next (range_stop r) (range_step r), source_cursor = range_start r,
      source_reiterable = True\<rparr>"

definition range_lc :: "int \<Rightarrow> int option \<Rightarrow> int \<Rightarrow> error + (int, int) LazyCollection" where
  "range_lc start stop step =
     (case stop of
        None \<Rightarrow> map_sum id of_range (py_range 0 start step)
      | Some stop' \<Rightarrow> map_sum id of_range (py_range start stop' step))"

section \<open>Observing an iteration\<close>

text \<open>
  \<open>runs nxt it xs it'\<close>: started at cursor \<open>it\<close>, the iterator hands over exactly the
  items \<open>xs\<close>, in this order, then signals exhaustion and is left at cursor \<open>it'\<close>.
  A finite sequence is a collection whose iterator runs to some list.
\<close>

inductive runs :: "('a, 's) next_fn \<Rightarrow> 's \<Rightarrow> 'a list \<Rightarrow> 's \<Rightarrow> bool" for nxt where
  runs_Stop: "nxt it = (Stop, it') \<Longrightarrow> runs nxt it [] it'"
| runs_Skip: "nxt it = (Skip, it') \<Longrightarrow> runs nxt it' xs it'' \<Longrightarrow> runs nxt it xs it''"
| runs_Yield: "nxt it = (Yield x, it') \<Longrightarrow> runs nxt it' xs it'' \<Longrightarrow> runs nxt it (x # xs) it''"

text \<open>
  \<open>advances nxt it r it'\<close>: started at cursor \<open>it\<close>, the iterator comes to its next
  item \<open>r\<close> (\<open>None\<close> at exhaustion) and is left at cursor \<open>it'\<close>.
\<close>

inductive advances :: "('a, 's) next_fn \<Rightarrow> 's \<Rightarrow> 'a option \<Rightarrow> 's \<Rightarrow> bool" for nxt where
  advances_Stop: "nxt it = (Stop, it') \<Longrightarrow> advances nxt it None it'"
| advances_Yield: "nxt it = (Yield x, it') \<Longrightarrow> advances nxt it (Some x) it'"
| advances_Skip: "nxt it = (Skip, it') \<Longrightarrow> advances nxt it' r it'' \<Longrightarrow> advances nxt it r it''"

text \<open>
  An endless producer: the item at position \<open>k\<close> is \<open>f k\<close>, and the cursor is the
  number of items drawn so far.
\<close>

definition endless_next :: "(nat \<Rightarrow> 'a) \<Rightarrow> ('a, nat) next_fn" where
  "endless_next f k = (Yield (f k), Suc k)"

text \<open>\<open>a = self.collect(); b = self.collect()\<close> on one and the same collection object.\<close>

definition collect_twice :: "('a, 's) LazyCollection \<Rightarrow> ('a list \<times> 'a list) option" where
  "collect_twice self =
     (case collect self of
        None \<Rightarrow> None
      | Some (a, self') \<Rightarrow>
          (case collect self' of None \<Rightarrow> None | Some (b, self'') \<Rightarrow> Some (a, b)))"

text \<open>The keys of a list in the order of their first occurrence.\<close>

definition first_seen :: "'k list \<Rightarrow> 'k list" where
  "first_seen ks = rev (remdups (rev ks))"

text \<open>
  The standard numeric range as a list: \<open>range(start, stop, step)\<close> has
  \<open>(stop - start - 1) // step + 1\<close> items when \<open>step\<close> points from \<open>start\<close> to \<open>stop\<close>
  (mirrored for a negative step), none otherwise, and its item at position \<open>k\<close> is
  \<open>start + k * step\<close>.
\<close>

definition range_length :: "int \<Rightarrow> int \<Rightarrow> int \<Rightarrow> nat" where
  "range_length start stop step =
     (if 0 < step \<and> start < stop then nat ((stop - start - 1) div step + 1)
      else if step < 0 \<and> stop < start then nat ((start - stop - 1) div (- step) + 1)
      else 0)"

definition range_items :: "int \<Rightarrow> int \<Rightarrow> int \<Rightarrow> int list" where
  "range_items start stop step =
     map (\<lambda>k. start + int k * step) [0 ..< range_length start stop step]"

text \<open>
  The grouping as the specification words it: one entry per key, the keys in the order
  of their first occurrence, each with the items sharing that key in their order.
\<close>

definition group_by_spec :: "('a \<Rightarrow> 'k) \<Rightarrow> 'a list \<Rightarrow> ('k \<times> 'a list) list" where
  "group_by_spec key_func xs =
     map (\<lambda>k. (k, filter (\<lambda>x. key_func x = k) xs)) (first_seen (map key_func xs))"

section \<open>Loops and their runs\<close>

lemma for_loop_runs:
  "runs nxt it xs it' \<Longrightarrow> for_loop nxt body it acc = Some (foldl body acc xs, it')"
proof (induction arbitrary: acc rule: runs.induct)
  case (runs_Stop it it')
  then show ?case by (subst for_loop.simps) simp
next
  case (runs_Skip it it' xs it'')
  then show ?case by (subst for_loop.simps) simp
next
  case (runs_Yield it x it' xs it'')
  then show ?case by (subst for_loop.simps) simp
qed

lemma for_loop_SomeD:
  "for_loop nxt body it acc = Some y \<Longrightarrow> \<exists>xs. runs nxt it xs (snd y) \<and> fst y = foldl body acc xs"
proof (induction nxt body it acc y rule: for_loop.raw_induct[rotated, consumes 1])
  case (1 for_loop nxt body it acc y)
  obtain r it' where step: "nxt it = (r, it')" by (cases "nxt it")
  show ?case
  proof (cases r)
    case (Yield item)
    with 1 step obtain xs where "runs nxt it' xs (snd y)" "fst y = foldl body (body acc item) xs"
      by fastforce
    with step Yield have "runs nxt it (item # xs) (snd y)" "fst y = foldl body acc (item # xs)"
      by (auto intro: runs.intros)
    then show ?thesis by blast
  next
    case Skip
    with 1 step obtain xs where "runs nxt it' xs (snd y)" "fst y = foldl body acc xs"
      by fastforce
    with step Skip show ?thesis by (blast intro: runs.intros)
  next
    case Stop
    with 1 step have "y = (acc, it')" by simp
    with step Stop have "runs nxt it [] (snd y)" "fst y = foldl body acc []"
      by (auto intro: runs.intros)
    then show ?thesis by blast
  qed
qed

lemma next_item_advances:
  "advances nxt it r it' \<Longrightarrow> next_item nxt it = Some (r, it')"
proof (induction rule: advances.induct)
  case (advances_Stop it it')
  then show ?case by (subst next_item.simps) simp
next
  case (advances_Yield it x it')
  then show ?case by (subst next_item.simps) simp
next
  case (advances_Skip it it' r it'')
  then show ?case by (subst next_item.simps) simp
qed

lemma next_item_SomeD:
  "next_item nxt it = Some y \<Longrightarrow> advances nxt it (fst y) (snd y)"
proof (induction nxt it y rule: next_item.raw_induct[rotated, consumes 1])
  case (1 next_item nxt it y)
  obtain r it' where step: "nxt it = (r, it')" by (cases "nxt it")
  show ?case
  proof (cases r)
    case (Yield item)
    with 1 step show ?thesis by (auto intro: advances.intros)
  next
    case Skip
    with 1 step have "advances nxt it' (fst y) (snd y)" by simp
    with step Skip show ?thesis by (blast intro: advances.intros)
  next
    case Stop
    with 1 step show ?thesis by (auto intro: advances.intros)
  qed
qed

lemma foldl_snoc: "foldl (\<lambda>acc item. acc @ [item]) acc xs = acc @ xs"
  by (induction xs arbitrary: acc) simp_all

lemma runs_list_next: "runs list_next xs xs []"
  by (induction xs) (auto intro: runs.intros)

section \<open>What each generator hands over\<close>

lemma runs_generator:
  "runs body frame xs frame' \<Longrightarrow> runs (generator body) (False, frame) xs (True, frame')"
proof (induction rule: runs.induct)
  case (runs_Stop it it')
  then show ?case by (auto intro!: runs.runs_Stop simp: generator_def)
next
  case (runs_Skip it it' xs it'')
  have "generator body (False, it) = (Skip, (False, it'))"
    using runs_Skip.hyps by (simp add: generator_def)
  then show ?case using runs_Skip.IH by (rule runs.runs_Skip)
next
  case (runs_Yield it x it' xs it'')
  have "generator body (False, it) = (Yield x, (False, it'))"
    using runs_Yield.hyps by (simp add: generator_def)
  then show ?case using runs_Yield.IH by (rule runs.runs_Yield)
qed

lemma runs_map_generator:
  "runs nxt it xs it' \<Longrightarrow> runs (map_generator f nxt) it (map f xs) it'"
proof (induction rule: runs.induct)
  case (runs_Stop it it')
  then show ?case by (auto intro!: runs.runs_Stop simp: map_generator_def)
next
  case (runs_Skip it it' xs it'')
  have "map_generator f nxt it = (Skip, it')"
    using runs_Skip.hyps by (simp add: map_generator_def)
  then show ?case using runs_Skip.IH by (rule runs.runs_Skip)
next
  case (runs_Yield it x it' xs it'')
  have "map_generator f nxt it = (Yield (f x), it')"
    using runs_Yield.hyps by (simp add: map_generator_def)
  then show ?case using runs_Yield.IH by (simp add: runs.runs_Yield)
qed

lemma runs_filter_generator:
  "runs nxt it xs it' \<Longrightarrow> runs (filter_generator p nxt) it (filter p xs) it'"
proof (induction rule: runs.induct)
  case (runs_Stop it it')
  then show ?case by (auto intro!: runs.runs_Stop simp: filter_generator_def)
next
  case (runs_Skip it it' xs it'')
  have "filter_generator p nxt it = (Skip, it')"
    using runs_Skip.hyps by (simp add: filter_generator_def)
  then show ?case using runs_Skip.IH by (rule runs.runs_Skip)
next
  case (runs_Yield it x it' xs it'')
  show ?case
  proof (cases "p x")
    case True
    then have "filter_generator p nxt it = (Yield x, it')"
      using runs_Yield.hyps by (simp add: filter_generator_def)
    then show ?thesis using runs_Yield.IH True by (simp add: runs.runs_Yield)
  next
    case False
    then have "filter_generator p nxt it = (Skip, it')"
      using runs_Yield.hyps by (simp add: filter_generator_def)
    then show ?thesis using runs_Yield.IH False by (simp add: runs.runs_Skip)
  qed
qed

lemma runs_skip_generator:
  "runs nxt it xs it' \<Longrightarrow>
   runs (skip_generator n nxt) (i, it) (drop (nat (n - i)) xs) (i + int (length xs), it')"
proof (induction arbitrary: i rule: runs.induct)
  case (runs_Stop it it')
  then show ?case by (auto intro!: runs.runs_Stop simp: skip_generator_def)
next
  case (runs_Skip it it' xs it'')
  have "skip_generator n nxt (i, it) = (Skip, (i, it'))"
    using runs_Skip.hyps by (simp add: skip_generator_def)
  then show ?case using runs_Skip.IH by (rule runs.runs_Skip)
next
  case (runs_Yield it x it' xs it'')
  have ih: "runs (skip_generator n nxt) (i + 1, it') (drop (nat (n - (i + 1))) xs)
              (i + int (length (x # xs)), it'')"
    using runs_Yield.IH [of "i + 1"] by (simp add: add.assoc)
  show ?case
  proof (cases "i \<ge> n")
    case True
    then have "skip_generator n nxt (i, it) = (Yield x, (i + 1, it'))"
      using runs_Yield.hyps by (simp add: skip_generator_def)
    moreover from True have "drop (nat (n - i)) (x # xs) = x # drop (nat (n - (i + 1))) xs"
      by simp
    ultimately show ?thesis using ih by (simp only: runs.runs_Yield)
  next
    case False
    then have "skip_generator n nxt (i, it) = (Skip, (i + 1, it'))"
      using runs_Yield.hyps by (simp add: skip_generator_def)
    moreover from False have "nat (n - i) = Suc (nat (n - (i + 1)))"
      by simp
    then have "drop (nat (n - i)) (x # xs) = drop (nat (n - (i + 1))) xs"
      by simp
    ultimately show ?thesis using ih by (simp only: runs.runs_Skip)
  qed
qed

lemma runs_take_generator:
  "runs nxt it xs it' \<Longrightarrow>
   \<exists>frame'. runs (take_generator n nxt) (i, it) (take (nat (n - i)) xs) frame'"
proof (induction arbitrary: i rule: runs.induct)
  case (runs_Stop it it')
  then have "take_generator n nxt (i, it) = (Stop, (i, it'))"
    by (simp add: take_generator_def)
  then have "runs (take_generator n nxt) (i, it) [] (i, it')"
    by (rule runs.runs_Stop)
  then show ?case by auto
next
  case (runs_Skip it it' xs it'')
  have "take_generator n nxt (i, it) = (Skip, (i, it'))"
    using runs_Skip.hyps by (simp add: take_generator_def)
  then show ?case using runs_Skip.IH [of i] by (blast intro: runs.runs_Skip)
next
  case (runs_Yield it x it' xs it'')
  show ?case
  proof (cases "i \<ge> n")
    case True
    then have "take_generator n nxt (i, it) = (Stop, (i + 1, it'))"
      using runs_Yield.hyps by (simp add: take_generator_def)
    then have "runs (take_generator n nxt) (i, it) [] (i + 1, it')"
      by (rule runs.runs_Stop)
    with True show ?thesis by auto
  next
    case False
    then have step: "take_generator n nxt (i, it) = (Yield x, (i + 1, it'))"
      using runs_Yield.hyps by (simp add: take_generator_def)
    from False have "nat (n - i) = Suc (nat (n - (i + 1)))"
      by simp
    then have eq: "take (nat (n - i)) (x # xs) = x # take (nat (n - (i + 1))) xs"
      by simp
    from runs_Yield.IH [of "i + 1"] obtain frame'
      where "runs (take_generator n nxt) (i + 1, it') (take (nat (n - (i + 1))) xs) frame'"
      by blast
    with step have "runs (take_generator n nxt) (i, it) (x # take (nat (n - (i + 1))) xs) frame'"
      by (rule runs.runs_Yield)
    then show ?thesis unfolding eq by blast
  qed
qed

lemma collect_runs:
  "runs (source_next self) (iter self) xs it' \<Longrightarrow> collect self = Some (xs, consumed self it')"
  by (simp add: collect_def for_loop_runs foldl_snoc)

lemma take_drop_positions:
  "take m (drop k xs) = map ((!) xs) [k ..< min (k + m) (length xs)]"
proof (rule nth_equalityI)
  show "length (take m (drop k xs)) = length (map ((!) xs) [k ..< min (k + m) (length xs)])"
    by (auto simp: min_def)
next
  fix i
  assume "i < length (take m (drop k xs))"
  then have "i < m" and "k + i < length xs"
    by auto
  then show "take m (drop k xs) ! i = map ((!) xs) [k ..< min (k + m) (length xs)] ! i"
    by simp
qed

lemma iter_of_generator: "iter (of_generator body frame) = (False, frame)"
  by (simp add: iter_def of_generator_def of_iterator_def)

lemma source_next_of_generator: "source_next (of_generator body frame) = generator body"
  by (simp add: of_generator_def of_iterator_def)

lemma skip_runs:
  assumes "runs (source_next self) (iter self) xs it'"
  shows "runs (source_next (skip self n)) (iter (skip self n)) (drop (nat n) xs)
           (True, int (length xs), it')"
  using runs_generator [OF runs_skip_generator [OF assms, of n 0]]
  by (simp add: skip_def iter_of_generator source_next_of_generator)

lemma take_runs:
  assumes "runs (source_next self) (iter self) xs it'"
  shows "\<exists>t. runs (source_next (take_lc self n)) (iter (take_lc self n)) (take (nat n) xs) t"
proof -
  from runs_take_generator [OF assms, of n 0] obtain frame'
    where "runs (take_generator n (source_next self)) (0, iter self) (take (nat n) xs) frame'"
    by auto
  from runs_generator [OF this] show ?thesis
    unfolding take_lc_def iter_of_generator source_next_of_generator by blast
qed

lemma map_runs:
  assumes "runs (source_next self) (iter self) xs it'"
  shows "runs (source_next (map_lc self f)) (iter (map_lc self f)) (map f xs) (True, it')"
  using runs_generator [OF runs_map_generator [OF assms, of f]]
  by (simp add: map_lc_def iter_of_generator source_next_of_generator)

lemma filter_runs:
  assumes "runs (source_next self) (iter self) xs it'"
  shows "runs (source_next (filter_lc self p)) (iter (filter_lc self p)) (filter p xs) (True, it')"
  using runs_generator [OF runs_filter_generator [OF assms, of p]]
  by (simp add: filter_lc_def iter_of_generator source_next_of_generator)

lemma of_list_runs: "runs (source_next (of_list xs)) (iter (of_list xs)) xs []"
  by (simp add: of_list_def iter_def runs_list_next)

lemma collect_items:
  "runs (source_next self) (iter self) xs it' \<Longrightarrow> map_option fst (collect self) = Some xs"
  by (simp add: collect_runs)

section \<open>Collections that return, collections that do not\<close>

lemma collect_SomeD:
  assumes "collect self = Some (xs, self')"
  shows "\<exists>it'. runs (source_next self) (iter self) xs it' \<and> self' = consumed self it'"
proof -
  from assms obtain it' where loop:
      "for_loop (source_next self) (\<lambda>acc item. acc @ [item]) (iter self) [] = Some (xs, it')"
    and self': "self' = consumed self it'"
    by (auto simp: collect_def)
  from for_loop_SomeD [OF loop] obtain ys
    where "runs (source_next self) (iter self) ys it'" and "xs = foldl (\<lambda>acc item. acc @ [item]) [] ys"
    by auto
  with self' show ?thesis
    by (auto simp: foldl_snoc)
qed

lemma runs_never_stops:
  assumes inv: "\<And>s. I s \<Longrightarrow> fst (nxt s) \<noteq> Stop \<and> I (snd (nxt s))"
  shows "runs nxt s xs t \<Longrightarrow> I s \<Longrightarrow> False"
proof (induction rule: runs.induct)
  case (runs_Stop it it')
  with inv [of it] show ?case by simp
next
  case (runs_Skip it it' xs it'')
  with inv [of it] show ?case by simp
next
  case (runs_Yield it x it' xs it'')
  with inv [of it] show ?case by simp
qed

lemma collect_None:
  assumes inv: "\<And>s. I s \<Longrightarrow> fst (source_next self s) \<noteq> Stop \<and> I (snd (source_next self s))"
    and start: "I (iter self)"
  shows "collect self = None"
proof (cases "collect self")
  case None
  then show ?thesis .
next
  case (Some y)
  obtain xs self' where "y = (xs, self')" by (cases y)
  with Some collect_SomeD obtain it' where "runs (source_next self) (iter self) xs it'"
    by blast
  from runs_never_stops [of I "source_next self", OF inv this start] show ?thesis ..
qed

section \<open>Generators that mirror each other\<close>

lemma runs_simulation:
  assumes sim: "\<And>s t. R s t \<Longrightarrow>
      fst (A s) = fst (B t) \<and> (fst (A s) \<noteq> Stop \<longrightarrow> R (snd (A s)) (snd (B t)))"
  shows "runs A s xs s' \<Longrightarrow> R s t \<Longrightarrow> \<exists>t'. runs B t xs t'"
proof (induction arbitrary: t rule: runs.induct)
  case (runs_Stop it it')
  with sim [of it t] have "fst (B t) = Stop" by simp
  then have "B t = (Stop, snd (B t))" by (metis prod.collapse)
  then show ?case by (blast intro: runs.runs_Stop)
next
  case (runs_Skip it it' xs it'')
  with sim [of it t] have b: "fst (B t) = Skip" and "R it' (snd (B t))" by simp_all
  with runs_Skip.IH obtain t' where "runs B (snd (B t)) xs t'" by blast
  moreover from b have "B t = (Skip, snd (B t))" by (metis prod.collapse)
  ultimately show ?case by (blast intro: runs.runs_Skip)
next
  case (runs_Yield it x it' xs it'')
  with sim [of it t] have b: "fst (B t) = Yield x" and "R it' (snd (B t))" by simp_all
  with runs_Yield.IH obtain t' where "runs B (snd (B t)) xs t'" by blast
  moreover from b have "B t = (Yield x, snd (B t))" by (metis prod.collapse)
  ultimately show ?case by (blast intro: runs.runs_Yield)
qed

lemma for_loop_bisimulation:
  assumes sim: "\<And>s t. R s t \<Longrightarrow>
      fst (A s) = fst (B t) \<and> (fst (A s) \<noteq> Stop \<longrightarrow> R (snd (A s)) (snd (B t)))"
    and start: "R s t"
  shows "map_option fst (for_loop A body s acc) = map_option fst (for_loop B body t acc)"
proof -
  have sim': "\<And>t s. R\<inverse>\<inverse> t s \<Longrightarrow>
      fst (B t) = fst (A s) \<and> (fst (B t) \<noteq> Stop \<longrightarrow> R\<inverse>\<inverse> (snd (B t)) (snd (A s)))"
    using sim by auto
  have ab: "map_option fst (for_loop B body t acc) = Some r"
    if "for_loop A body s acc = Some (r, s')" for r s'
  proof -
    from for_loop_SomeD [OF that] obtain xs where "runs A s xs s'" and r: "r = foldl body acc xs"
      by auto
    from runs_simulation [of R A B, OF sim this(1) start] obtain t' where "runs B t xs t'"
      by blast
    from for_loop_runs [OF this, of body acc] r show ?thesis by simp
  qed
  have ba: "map_option fst (for_loop A body s acc) = Some r"
    if "for_loop B body t acc = Some (r, t')" for r t'
  proof -
    from for_loop_SomeD [OF that] obtain xs where "runs B t xs t'" and r: "r = foldl body acc xs"
      by auto
    from start have "R\<inverse>\<inverse> t s" by simp
    from runs_simulation [of "R\<inverse>\<inverse>" B A, OF sim' \<open>runs B t xs t'\<close> this]
    obtain s' where "runs A s xs s'"
      by blast
    from for_loop_runs [OF this, of body acc] r show ?thesis by simp
  qed
  show ?thesis
  proof (cases "for_loop A body s acc")
    case None
    then have "for_loop B body t acc = None"
      using ba by (cases "for_loop B body t acc") auto
    with None show ?thesis by simp
  next
    case (Some y)
    with ab [of "fst y" "snd y"] show ?thesis by auto
  qed
qed

section \<open>The range factory and the standard numeric range\<close>

lemma range_length_0:
  "range_length start stop step = 0 \<Longrightarrow> range_next stop step start = (Stop, start)"
proof -
  assume z: "range_length start stop step = 0"
  have "\<not> (0 < step \<and> start < stop)"
  proof
    assume a: "0 < step \<and> start < stop"
    then have "0 \<le> (stop - start - 1) div step"
      by (simp add: pos_imp_zdiv_nonneg_iff)
    with a z show False by (simp add: range_length_def)
  qed
  moreover have "\<not> (step < 0 \<and> stop < start)"
  proof
    assume a: "step < 0 \<and> stop < start"
    then have "0 \<le> (start - stop - 1) div (- step)"
      by (simp add: pos_imp_zdiv_nonneg_iff)
    with a z show False by (simp add: range_length_def)
  qed
  ultimately show ?thesis by (simp add: range_next_def)
qed

lemma div_diff_self:
  fixes a b :: int
  assumes "b \<noteq> 0"
  shows "(a - b) div b = a div b - 1"
  using div_add_self2 [OF assms, of "a - b"] by simp

lemma range_length_Suc:
  assumes "range_length start stop step = Suc n"
  shows "range_next stop step start = (Yield start, start + step)"
    and "range_length (start + step) stop step = n"
proof -
  from assms have cond: "(0 < step \<and> start < stop) \<or> (step < 0 \<and> stop < start)"
    by (auto simp: range_length_def split: if_splits)
  then show "range_next stop step start = (Yield start, start + step)"
    by (auto simp: range_next_def)
  from cond show "range_length (start + step) stop step = n"
  proof
    assume a: "0 < step \<and> start < stop"
    with assms have n: "int n = (stop - start - 1) div step"
      by (simp add: range_length_def)
    show ?thesis
    proof (cases "start + step < stop")
      case True
      have "(stop - (start + step) - 1) div step = (stop - start - 1 - step) div step"
        by (simp add: algebra_simps)
      also have "\<dots> = (stop - start - 1) div step - 1"
        using a by (simp add: div_diff_self)
      finally have "(stop - (start + step) - 1) div step + 1 = int n"
        using n by simp
      with a True show ?thesis by (simp add: range_length_def)
    next
      case False
      with a have "(stop - start - 1) div step = 0"
        by simp
      with n a False show ?thesis by (simp add: range_length_def)
    qed
  next
    assume a: "step < 0 \<and> stop < start"
    with assms have n: "int n = (start - stop - 1) div (- step)"
      by (simp add: range_length_def)
    show ?thesis
    proof (cases "stop < start + step")
      case True
      have "(start + step - stop - 1) div (- step) = (start - stop - 1 - (- step)) div (- step)"
        by (simp add: algebra_simps)
      also have "\<dots> = (start - stop - 1) div (- step) - 1"
        using a by (intro div_diff_self) simp
      finally have "(start + step - stop - 1) div (- step) + 1 = int n"
        using n by simp
      with a True show ?thesis by (simp add: range_length_def)
    next
      case False
      with a have "(start - stop - 1) div (- step) = 0"
        by simp
      with n a False show ?thesis by (simp add: range_length_def)
    qed
  qed
qed

lemma runs_range_next_aux:
  "range_length start stop step = n \<Longrightarrow>
   runs (range_next stop step) start (map (\<lambda>k. start + int k * step) [0 ..< n])
     (start + int n * step)"
proof (induction n arbitrary: start)
  case 0
  from range_length_0 [OF this] have "runs (range_next stop step) start [] start"
    by (rule runs.runs_Stop)
  then show ?case by simp
next
  case (Suc n)
  from range_length_Suc [OF Suc.prems]
  have step: "range_next stop step start = (Yield start, start + step)"
    and len: "range_length (start + step) stop step = n"
    by simp_all
  have items: "map (\<lambda>k. start + int k * step) [0 ..< Suc n] =
      start # map (\<lambda>k. start + step + int k * step) [0 ..< n]"
    by (simp add: map_upt_Suc algebra_simps del: upt_Suc)
  have cursor: "start + step + int n * step = start + int (Suc n) * step"
    by (simp add: algebra_simps)
  from runs.runs_Yield [OF step Suc.IH [OF len]] show ?case
    unfolding items cursor .
qed

lemma runs_range_next:
  "runs (range_next stop step) start (range_items start stop step)
     (start + int (range_length start stop step) * step)"
  unfolding range_items_def by (rule runs_range_next_aux) simp

lemma of_range_runs:
  "runs (source_next (of_range r)) (iter (of_range r))
     (range_items (range_start r) (range_stop r) (range_step r))
     (range_start r + int (range_length (range_start r) (range_stop r) (range_step r)) * range_step r)"
  by (simp add: of_range_def iter_def runs_range_next)

lemma range_lc_None:
  "range_lc start None step =
   (if step = 0 then Inl ValueError
    else Inr (of_range \<lparr>range_start = 0, range_stop = start, range_step = step\<rparr>))"
  by (simp add: range_lc_def py_range_def)

lemma range_lc_Some:
  "range_lc start (Some stop) step =
   (if step = 0 then Inl ValueError
    else Inr (of_range \<lparr>range_start = start, range_stop = stop, range_step = step\<rparr>))"
  by (simp add: range_lc_def py_range_def)

lemma collect_of_range:
  "map_option fst (collect (of_range \<lparr>range_start = start, range_stop = stop, range_step = step\<rparr>)) =
   Some (range_items start stop step)"
  using collect_items [OF of_range_runs, of "\<lparr>range_start = start, range_stop = stop, range_step = step\<rparr>"]
  by simp

section \<open>How many items \<open>take\<close> draws\<close>

text \<open>
  Over a list behind a counting wrapper, and over an endless producer, a drained
  \<open>take(n)\<close> hands over the first \<open>n\<close> items and has then drawn \<open>n + 1\<close> of them from
  upstream (as many as there are, if fewer; one, for \<open>n \<le> 0\<close>): the loop pulls an item
  before it compares the index with \<open>n\<close>.
\<close>

lemma runs_take_counting_list:
  "runs (take_generator n (counting list_next)) (i, c, xs) (take (nat (n - i)) xs)
     (i + int (min (length xs) (Suc (nat (n - i)))),
      c + min (length xs) (Suc (nat (n - i))),
      drop (min (length xs) (Suc (nat (n - i)))) xs)"
proof (induction xs arbitrary: i c)
  case Nil
  have "take_generator n (counting list_next) (i, c, []) = (Stop, (i, c, []))"
    by (simp add: take_generator_def counting_def)
  then have "runs (take_generator n (counting list_next)) (i, c, []) [] (i, c, [])"
    by (rule runs.runs_Stop)
  then show ?case by simp
next
  case (Cons x xs)
  show ?case
  proof (cases "i \<ge> n")
    case True
    then have "take_generator n (counting list_next) (i, c, x # xs) = (Stop, (i + 1, Suc c, xs))"
      by (simp add: take_generator_def counting_def)
    then have "runs (take_generator n (counting list_next)) (i, c, x # xs) [] (i + 1, Suc c, xs)"
      by (rule runs.runs_Stop)
    with True show ?thesis by simp
  next
    case False
    then have step: "take_generator n (counting list_next) (i, c, x # xs) = (Yield x, (i + 1, Suc c, xs))"
      by (simp add: take_generator_def counting_def)
    from False have n: "nat (n - i) = Suc (nat (n - (i + 1)))"
      by simp
    from runs.runs_Yield [OF step Cons.IH [of "i + 1" "Suc c"]] show ?thesis
      unfolding n by (simp add: add.assoc)
  qed
qed

lemma runs_take_endless_aux:
  "nat (n - i) = m \<Longrightarrow>
   runs (take_generator n (endless_next f)) (i, k) (map f [k ..< k + m]) (i + int (Suc m), k + Suc m)"
proof (induction m arbitrary: i k)
  case 0
  then have "take_generator n (endless_next f) (i, k) = (Stop, (i + 1, Suc k))"
    by (simp add: take_generator_def endless_next_def)
  then have "runs (take_generator n (endless_next f)) (i, k) [] (i + 1, Suc k)"
    by (rule runs.runs_Stop)
  then show ?case by simp
next
  case (Suc m)
  then have m: "nat (n - (i + 1)) = m" and "i < n"
    by simp_all
  then have step: "take_generator n (endless_next f) (i, k) = (Yield (f k), (i + 1, Suc k))"
    by (simp add: take_generator_def endless_next_def)
  have items: "map f [k ..< k + Suc m] = f k # map f [Suc k ..< Suc k + m]"
    by (simp add: upt_conv_Cons del: upt_Suc)
  have cursor: "(i + 1 + int (Suc m), Suc k + Suc m) = (i + int (Suc (Suc m)), k + Suc (Suc m))"
    by simp
  from runs.runs_Yield [OF step Suc.IH [OF m, of "Suc k"]] show ?case
    unfolding items cursor .
qed

lemma runs_take_endless:
  "runs (take_generator n (endless_next f)) (i, k) (map f [k ..< k + nat (n - i)])
     (i + int (Suc (nat (n - i))), k + Suc (nat (n - i)))"
  by (rule runs_take_endless_aux) simp

lemma source_cursor_of_iterator: "source_cursor (of_iterator nxt it) = it"
  by (simp add: of_iterator_def)

lemma take_draws_list:
  "collect (take_lc (of_iterator (counting list_next) (0, xs)) n) =
   Some (take (nat n) xs,
     of_iterator (generator (take_generator n (counting list_next)))
       (True, int (min (length xs) (Suc (nat n))), min (length xs) (Suc (nat n)),
        drop (min (length xs) (Suc (nat n))) xs))"
proof -
  let ?self = "take_lc (of_iterator (counting list_next) (0, xs)) n"
  from runs_generator [OF runs_take_counting_list [of n 0 0 xs]]
  have "runs (source_next ?self) (iter ?self) (take (nat n) xs)
          (True, int (min (length xs) (Suc (nat n))), min (length xs) (Suc (nat n)),
           drop (min (length xs) (Suc (nat n))) xs)"
    by (simp add: take_lc_def of_generator_def of_iterator_def iter_def)
  from collect_runs [OF this] show ?thesis
    by (simp add: take_lc_def of_generator_def of_iterator_def iter_def consumed_def)
qed

lemma take_draws_endless:
  "collect (take_lc (of_iterator (endless_next f) 0) n) =
   Some (map f [0 ..< nat n],
     of_iterator (generator (take_generator n (endless_next f))) (True, int (Suc (nat n)), Suc (nat n)))"
proof -
  let ?self = "take_lc (of_iterator (endless_next f) 0) n"
  from runs_generator [OF runs_take_endless [of n f 0 0]]
  have "runs (source_next ?self) (iter ?self) (map f [0 ..< nat n]) (True, int (Suc (nat n)), Suc (nat n))"
    by (simp add: take_lc_def of_generator_def of_iterator_def iter_def)
  from collect_runs [OF this] show ?thesis
    by (simp add: take_lc_def of_generator_def of_iterator_def iter_def consumed_def)
qed

text \<open>
  The extra pull is not only wasted work. Over an endless producer filtered down to two
  matching items, \<open>take(2)\<close> hands over both and then waits for a third that never
  comes: collecting it does not return.
\<close>

lemma take_waits_for_one_more:
  "collect (take_lc (filter_lc (of_iterator (endless_next int) 0) (\<lambda>x. x < 2)) 2) = None"
proof (rule collect_None [where I = "\<lambda>s. \<exists>k. s = (False, int (min k 2), False, k)"])
  show "\<exists>k. iter (take_lc (filter_lc (of_iterator (endless_next int) 0) (\<lambda>x. x < 2)) 2) =
          (False, int (min k 2), False, k)"
    by (simp add: take_lc_def filter_lc_def of_generator_def iter_def of_iterator_def)
next
  fix s :: "bool \<times> int \<times> bool \<times> nat"
  assume "\<exists>k. s = (False, int (min k 2), False, k)"
  then obtain k where s: "s = (False, int (min k 2), False, k)"
    by blast
  let ?nxt = "source_next (take_lc (filter_lc (of_iterator (endless_next int) 0) (\<lambda>x. x < 2)) 2)"
  have nxt: "?nxt = generator (take_generator 2 (generator (filter_generator (\<lambda>x. x < 2) (endless_next int))))"
    by (simp add: take_lc_def filter_lc_def of_generator_def iter_def of_iterator_def)
  show "fst (?nxt s) \<noteq> Stop \<and> (\<exists>k. snd (?nxt s) = (False, int (min k 2), False, k))"
  proof (cases "k < 2")
    case True
    then have "?nxt s = (Yield (int k), (False, int (min (Suc k) 2), False, Suc k))"
      unfolding nxt s
      by (simp add: generator_def take_generator_def filter_generator_def endless_next_def min_def)
    then show ?thesis by auto
  next
    case False
    then have "?nxt s = (Skip, (False, int (min (Suc k) 2), False, Suc k))"
      unfolding nxt s
      by (simp add: generator_def take_generator_def filter_generator_def endless_next_def min_def)
    then show ?thesis by auto
  qed
qed

text \<open>
  C1. \<open>take(n)\<close> is to stop pulling once it has handed over \<open>n\<close> items, and to pull nothing
  for \<open>n \<le> 0\<close>. The code hands over the right items but draws one more: \<open>take(2)\<close> over
  the counted list \<open>[5, 6, 7, 8]\<close> returns \<open>[5, 6]\<close> having drawn three items,
  \<open>take(0)\<close> returns nothing having drawn one, and \<open>take(2)\<close> over the endless producer of
  \<open>0, 1, 2, \<dots>\<close> leaves its cursor at three.
\<close>

theorem take_draws_one_more:
  "map_option (\<lambda>(items, self'). (items, fst (snd (snd (source_cursor self')))))
     (collect (take_lc (of_iterator (counting list_next) (0, [5, 6, 7, 8 :: int])) 2)) = Some ([5, 6], 3)
   \<and> map_option (\<lambda>(items, self'). (items, fst (snd (snd (source_cursor self')))))
     (collect (take_lc (of_iterator (counting list_next) (0, [5, 6, 7, 8 :: int])) 0)) = Some ([], 1)
   \<and> map_option (\<lambda>(items, self'). (items, snd (snd (source_cursor self'))))
     (collect (take_lc (of_iterator (endless_next int) 0) 2)) = Some ([0, 1], 3)"
  by (simp add: take_draws_list take_draws_endless source_cursor_of_iterator upt_rec)

section \<open>Chunks of a non-positive size\<close>

lemma runs_chunk_generator_nonpositive:
  assumes "chunk_size \<le> 0"
  shows "runs nxt it xs it' \<Longrightarrow>
         runs (chunk_generator chunk_size nxt) (c, True, it)
           (if c @ xs = [] then [] else [c @ xs]) (c @ xs, False, it')"
proof (induction arbitrary: c rule: runs.induct)
  case (runs_Stop it it')
  show ?case
  proof (cases "c = []")
    case True
    with runs_Stop have "chunk_generator chunk_size nxt (c, True, it) = (Stop, (c, False, it'))"
      by (simp add: chunk_generator_def)
    then have "runs (chunk_generator chunk_size nxt) (c, True, it) [] (c, False, it')"
      by (rule runs.runs_Stop)
    with True show ?thesis by simp
  next
    case False
    with runs_Stop have "chunk_generator chunk_size nxt (c, True, it) = (Yield c, (c, False, it'))"
      by (simp add: chunk_generator_def)
    moreover have "chunk_generator chunk_size nxt (c, False, it') = (Stop, (c, False, it'))"
      by (simp add: chunk_generator_def)
    then have "runs (chunk_generator chunk_size nxt) (c, False, it') [] (c, False, it')"
      by (rule runs.runs_Stop)
    ultimately have "runs (chunk_generator chunk_size nxt) (c, True, it) [c] (c, False, it')"
      by (rule runs.runs_Yield)
    with False show ?thesis by simp
  qed
next
  case (runs_Skip it it' xs it'')
  have "chunk_generator chunk_size nxt (c, True, it) = (Skip, (c, True, it'))"
    using runs_Skip.hyps by (simp add: chunk_generator_def)
  then show ?case using runs_Skip.IH by (rule runs.runs_Skip)
next
  case (runs_Yield it x it' xs it'')
  from assms have "int (length (c @ [x])) \<noteq> chunk_size"
    by simp
  then have "chunk_generator chunk_size nxt (c, True, it) = (Skip, (c @ [x], True, it'))"
    using runs_Yield.hyps by (simp add: chunk_generator_def Let_def)
  from runs.runs_Skip [OF this runs_Yield.IH [of "c @ [x]"]] show ?case
    by simp
qed

lemma chunk_nonpositive_runs:
  assumes "runs (source_next self) (iter self) xs it'" and "chunk_size \<le> 0"
  shows "runs (source_next (chunk self chunk_size)) (iter (chunk self chunk_size))
           (if xs = [] then [] else [xs]) (True, xs, False, it')"
  using runs_generator [OF runs_chunk_generator_nonpositive [OF assms(2) assms(1), of "[]"]]
  by (cases "xs = []") (simp_all add: chunk_def iter_of_generator source_next_of_generator)

text \<open>
  C2 says that evaluating \<open>chunk(size)\<close> with \<open>size \<le> 0\<close> fails with an error instead of
  producing a grouping. The code has no check of \<open>size\<close>: \<open>chunk(0)\<close> over \<open>[1, 2, 3]\<close>
  evaluates to a single group holding \<open>1, 2, 3\<close>.
\<close>

theorem chunk_nonpositive_size_counterexample:
  "map_option fst (collect (chunk (of_list [1, 2, 3 :: int]) 0)) = Some [ [1, 2, 3] ]"
  using collect_items [OF chunk_nonpositive_runs [OF of_list_runs, of 0 "[1, 2, 3 :: int]"]]
  by simp

text \<open>
  C2, amended. For a finite sequence and \<open>size \<le> 0\<close>, evaluating \<open>chunk(size)\<close> raises
  nothing: the length of \<open>chunk\<close> is never \<open>size\<close>, so every item goes into one group,
  handed over when upstream is exhausted; an empty sequence gives no group at all.
\<close>

theorem chunk_nonpositive_size:
  assumes "runs (source_next S) (iter S) xs it'" and "chunk_size \<le> 0"
  shows "map_option fst (collect (chunk S chunk_size)) = Some (if xs = [] then [] else [xs])"
  using assms by (rule collect_items [OF chunk_nonpositive_runs])

theorem chunk_nonpositive_size_witness:
  "(- 2 :: int) \<le> 0 \<and>
   map_option fst (collect (chunk (of_list [4, 5, 6, 7 :: int]) (- 2))) = Some [ [4, 5, 6, 7] ] \<and>
   map_option fst (collect (chunk (of_list ([] :: int list)) (- 2))) = Some []"
  using chunk_nonpositive_size [OF of_list_runs, of "- 2" "[4, 5, 6, 7 :: int]"]
    chunk_nonpositive_size [OF of_list_runs, of "- 2" "[] :: int list"]
  by simp

section \<open>The take/skip composition law\<close>

text \<open>
  C3. For a finite sequence \<open>S\<close> with items \<open>xs\<close> and non-negative \<open>a\<close> and \<open>b\<close>,
  collecting \<open>S.skip(a).take(b)\<close> returns the items of \<open>S\<close> at the zero-based
  positions from \<open>a\<close> up to, not including, \<open>a + b\<close>, clipped to the length of \<open>S\<close>,
  in order.
\<close>

theorem skip_take_positions:
  assumes "runs (source_next S) (iter S) xs it'" and "0 \<le> a" and "0 \<le> b"
  shows "map_option fst (collect (take_lc (skip S a) b)) =
         Some (map ((!) xs) [nat a ..< min (nat (a + b)) (length xs)])"
proof -
  from take_runs [OF skip_runs [OF assms(1), where n = a], where n = b] obtain t
    where "runs (source_next (take_lc (skip S a) b)) (iter (take_lc (skip S a) b))
             (take (nat b) (drop (nat a) xs)) t"
    by blast
  then have "map_option fst (collect (take_lc (skip S a) b)) = Some (take (nat b) (drop (nat a) xs))"
    by (rule collect_items)
  moreover from assms(2,3) have "nat (a + b) = nat a + nat b"
    by (simp add: nat_add_distrib)
  ultimately show ?thesis
    by (simp add: take_drop_positions)
qed

theorem skip_take_positions_witness:
  "map_option fst (collect (take_lc (skip (of_list [10, 20, 30, 40, 50 :: int]) 1) 2)) = Some [20, 30]
   \<and> map_option fst (collect (take_lc (skip (of_list [10, 20, 30 :: int]) 2) 5)) = Some [30]"
  using skip_take_positions [OF of_list_runs, of 1 2 "[10, 20, 30, 40, 50 :: int]"]
    skip_take_positions [OF of_list_runs, of 2 5 "[10, 20, 30 :: int]"]
  by (simp add: upt_rec)

section \<open>The first item\<close>

lemma advances_runs:
  "runs nxt it xs it' \<Longrightarrow> \<exists>t. advances nxt it (case xs of [] \<Rightarrow> None | x # _ \<Rightarrow> Some x) t"
proof (induction rule: runs.induct)
  case (runs_Stop it it')
  then show ?case by (auto intro: advances.advances_Stop)
next
  case (runs_Skip it it' xs it'')
  then show ?case by (blast intro: advances.advances_Skip)
next
  case (runs_Yield it x it' xs it'')
  then show ?case by (auto intro: advances.advances_Yield)
qed

lemma first_runs:
  assumes "runs (source_next S) (iter S) xs it'"
  shows "map_option fst (first S) = Some (case xs of [] \<Rightarrow> None | x # _ \<Rightarrow> Some x)"
proof -
  from advances_runs [OF assms] obtain t
    where "advances (source_next S) (iter S) (case xs of [] \<Rightarrow> None | x # _ \<Rightarrow> Some x) t"
    by blast
  from next_item_advances [OF this] show ?thesis
    by (simp add: first_def)
qed

lemma advances_counting:
  "advances nxt it r it' \<Longrightarrow>
   advances (counting nxt) (c, it) r (case r of None \<Rightarrow> c | Some _ \<Rightarrow> Suc c, it')"
proof (induction rule: advances.induct)
  case (advances_Stop it it')
  then have "counting nxt (c, it) = (Stop, (c, it'))"
    by (simp add: counting_def)
  then show ?case by (simp add: advances.advances_Stop)
next
  case (advances_Yield it x it')
  then have "counting nxt (c, it) = (Yield x, (Suc c, it'))"
    by (simp add: counting_def)
  then show ?case by (simp add: advances.advances_Yield)
next
  case (advances_Skip it it' r it'')
  then have "counting nxt (c, it) = (Skip, (c, it'))"
    by (simp add: counting_def)
  then show ?case using advances_Skip.IH by (rule advances.advances_Skip)
qed

lemma advances_counting_inv:
  "advances cnxt s r t \<Longrightarrow> cnxt = counting nxt \<Longrightarrow> \<exists>it'. advances nxt (snd s) r it'"
proof (induction rule: advances.induct)
  case (advances_Stop it it')
  obtain q u where step: "nxt (snd it) = (q, u)" by (cases "nxt (snd it)")
  with advances_Stop have "q = Stop"
    by (cases it; cases q) (simp_all add: counting_def)
  with step show ?case by (blast intro: advances.advances_Stop)
next
  case (advances_Yield it x it')
  obtain q u where step: "nxt (snd it) = (q, u)" by (cases "nxt (snd it)")
  with advances_Yield have "q = Yield x"
    by (cases it; cases q) (simp_all add: counting_def)
  with step show ?case by (blast intro: advances.advances_Yield)
next
  case (advances_Skip it it' r it'')
  obtain q u where step: "nxt (snd it) = (q, u)" by (cases "nxt (snd it)")
  with advances_Skip.hyps(1) advances_Skip.prems have "q = Skip \<and> snd it' = u"
    by (cases it; cases q) (auto simp: counting_def)
  with step have "nxt (snd it) = (Skip, snd it')"
    by simp
  moreover from advances_Skip.IH [OF advances_Skip.prems] obtain t
    where "advances nxt (snd it') r t"
    by blast
  ultimately have "advances nxt (snd it) r t"
    by (rule advances.advances_Skip)
  then show ?case by blast
qed

lemma next_item_counting:
  "next_item (counting nxt) (c, it) =
   map_option (\<lambda>(item, it'). (item, (case item of None \<Rightarrow> c | Some _ \<Rightarrow> Suc c, it')))
     (next_item nxt it)"
proof (cases "next_item nxt it")
  case None
  have "next_item (counting nxt) (c, it) = None"
  proof (rule ccontr)
    assume "next_item (counting nxt) (c, it) \<noteq> None"
    then obtain y where "next_item (counting nxt) (c, it) = Some y" by blast
    from advances_counting_inv [OF next_item_SomeD [OF this] refl]
    obtain it' where "advances nxt it (fst y) it'" by auto
    from next_item_advances [OF this] None show False by simp
  qed
  with None show ?thesis by simp
next
  case (Some y)
  from advances_counting [OF next_item_SomeD [OF Some], of c]
  have "next_item (counting nxt) (c, it) =
      Some (fst y, (case fst y of None \<Rightarrow> c | Some _ \<Rightarrow> Suc c, snd y))"
    by (rule next_item_advances)
  with Some show ?thesis by (simp add: case_prod_unfold)
qed

lemma advances_filter_endless:
  assumes "p (f k)" and "\<forall>j<k. \<not> p (f j)"
  shows "j \<le> k \<Longrightarrow> k - j = d \<Longrightarrow>
         advances (generator (filter_generator p (endless_next f))) (False, j) (Some (f k)) (False, Suc k)"
proof (induction d arbitrary: j)
  case 0
  then have "j = k" by simp
  with assms(1) have "generator (filter_generator p (endless_next f)) (False, j) = (Yield (f k), (False, Suc k))"
    by (simp add: generator_def filter_generator_def endless_next_def)
  then show ?case by (rule advances.advances_Yield)
next
  case (Suc d)
  then have "j < k" by simp
  with assms(2) have "\<not> p (f j)" by simp
  then have "generator (filter_generator p (endless_next f)) (False, j) = (Skip, (False, Suc j))"
    by (simp add: generator_def filter_generator_def endless_next_def)
  moreover from Suc.prems have "Suc j \<le> k" and "k - Suc j = d" by simp_all
  then have "advances (generator (filter_generator p (endless_next f))) (False, Suc j) (Some (f k)) (False, Suc k)"
    by (rule Suc.IH)
  ultimately show ?case by (rule advances.advances_Skip)
qed

lemma advances_filter_range_positive:
  assumes "1 < stop"
  shows "cur \<le> 1 \<Longrightarrow> nat (1 - cur) = d \<Longrightarrow>
         advances (generator (filter_generator ((<) 0) (range_next stop 1))) (False, cur) (Some 1) (False, 2)"
proof (induction d arbitrary: cur)
  case 0
  then have "cur = 1" by simp
  with assms have "generator (filter_generator ((<) 0) (range_next stop 1)) (False, cur) = (Yield 1, (False, 2))"
    by (simp add: generator_def filter_generator_def range_next_def)
  then show ?case by (rule advances.advances_Yield)
next
  case (Suc d)
  then have "cur \<le> 0" by simp
  with assms have "generator (filter_generator ((<) 0) (range_next stop 1)) (False, cur) = (Skip, (False, cur + 1))"
    by (simp add: generator_def filter_generator_def range_next_def)
  moreover from Suc.prems have "cur + 1 \<le> 1" and "nat (1 - (cur + 1)) = d" by simp_all
  then have "advances (generator (filter_generator ((<) 0) (range_next stop 1))) (False, cur + 1) (Some 1) (False, 2)"
    by (rule Suc.IH)
  ultimately show ?case by (rule advances.advances_Skip)
qed


lemma first_counting:
  "first (of_iterator (counting nxt) (c, it)) =
   map_option (\<lambda>(item, it'). (item, of_iterator (counting nxt) (case item of None \<Rightarrow> c | Some _ \<Rightarrow> Suc c, it')))
     (next_item nxt it)"
  by (simp add: first_def of_iterator_def iter_def consumed_def next_item_counting
      option.map_comp comp_def case_prod_unfold)

lemma first_of_generator:
  "advances (generator body) (False, frame) item t \<Longrightarrow>
   first (of_generator body frame) = Some (item, of_iterator (generator body) t)"
  by (simp add: first_def of_generator_def of_iterator_def iter_def consumed_def next_item_advances)

lemma first_filter_endless:
  assumes "p (f k)" and "\<forall>j<k. \<not> p (f j)"
  shows "first (filter_lc (of_iterator (endless_next f) 0) p) =
         Some (Some (f k), of_iterator (generator (filter_generator p (endless_next f))) (False, Suc k))"
  using first_of_generator [OF advances_filter_endless [where p = p and f = f and k = k and j = 0 and d = k, OF assms]]
  by (simp add: filter_lc_def of_iterator_def iter_def)

lemma first_filter_range_positive:
  assumes "start \<le> 1" and "1 < stop"
  shows "first (filter_lc (of_range \<lparr>range_start = start, range_stop = stop, range_step = 1\<rparr>) ((<) 0)) =
         Some (Some 1, of_iterator (generator (filter_generator ((<) 0) (range_next stop 1))) (False, 2))"
  using first_of_generator [OF advances_filter_range_positive [OF assms(2) assms(1) refl]]
  by (simp add: filter_lc_def of_range_def iter_def)

text \<open>
  C4. \<open>first()\<close> returns the first item of the sequence, or \<open>None\<close> when the sequence is
  empty. It draws exactly one item from the sequence, none when the sequence is empty:
  over a counted sequence the counter goes up by one with the item returned and stays
  when \<open>None\<close> is returned (and \<open>first()\<close> returns exactly when the sequence comes to a
  next item or to its end). Over a filtered endless producer whose first match is at
  position \<open>k\<close> it returns that item and leaves the producer at position \<open>k + 1\<close>:
  nothing beyond the first match is drawn. \<open>range(-1000000, 1000000).filter(x > 0).first()\<close>
  returns \<open>1\<close> and leaves the range at \<open>2\<close>.
\<close>

theorem first_pulls_one:
  "(runs (source_next S) (iter S) xs it' \<longrightarrow>
      map_option fst (first S) = Some (case xs of [] \<Rightarrow> None | x # _ \<Rightarrow> Some x)) \<and>
   first (of_iterator (counting nxt) (c, it)) =
     map_option (\<lambda>(item, it'). (item, of_iterator (counting nxt) (case item of None \<Rightarrow> c | Some _ \<Rightarrow> Suc c, it')))
       (next_item nxt it) \<and>
   (p (f k) \<and> (\<forall>j<k. \<not> p (f j)) \<longrightarrow>
      first (filter_lc (of_iterator (endless_next f) 0) p) =
      Some (Some (f k), of_iterator (generator (filter_generator p (endless_next f))) (False, Suc k))) \<and>
   map_sum id (\<lambda>r. first (filter_lc r ((<) 0))) (range_lc (- 1000000) (Some 1000000) 1) =
     Inr (Some (Some 1, of_iterator (generator (filter_generator ((<) 0) (range_next 1000000 1))) (False, 2)))"
proof (intro conjI impI)
  assume "runs (source_next S) (iter S) xs it'"
  then show "map_option fst (first S) = Some (case xs of [] \<Rightarrow> None | x # _ \<Rightarrow> Some x)"
    by (rule first_runs)
next
  show "first (of_iterator (counting nxt) (c, it)) =
     map_option (\<lambda>(item, it'). (item, of_iterator (counting nxt) (case item of None \<Rightarrow> c | Some _ \<Rightarrow> Suc c, it')))
       (next_item nxt it)"
    by (rule first_counting)
next
  assume "p (f k) \<and> (\<forall>j<k. \<not> p (f j))"
  then show "first (filter_lc (of_iterator (endless_next f) 0) p) =
      Some (Some (f k), of_iterator (generator (filter_generator p (endless_next f))) (False, Suc k))"
    by (simp add: first_filter_endless)
next
  show "map_sum id (\<lambda>r. first (filter_lc r ((<) 0))) (range_lc (- 1000000) (Some 1000000) 1) =
     Inr (Some (Some 1, of_iterator (generator (filter_generator ((<) 0) (range_next 1000000 1))) (False, 2)))"
    by (simp add: range_lc_Some first_filter_range_positive)
qed

theorem first_pulls_one_witness:
  "map_option fst (first (of_list [4, 5 :: int])) = Some (Some 4) \<and>
   map_option fst (first (of_list ([] :: int list))) = Some None \<and>
   first (of_iterator (counting list_next) (0, [4, 5 :: int])) =
     Some (Some 4, of_iterator (counting list_next) (1, [5])) \<and>
   first (of_iterator (counting list_next) (0, [] :: int list)) =
     Some (None, of_iterator (counting list_next) (0, [])) \<and>
   first (filter_lc (of_iterator (endless_next int) 0) ((<) 2)) =
     Some (Some 3, of_iterator (generator (filter_generator ((<) 2) (endless_next int))) (False, 4))"
proof -
  have "(2 :: int) < int 3 \<and> (\<forall>j<3. \<not> 2 < int j)"
    by auto
  with first_pulls_one [of "of_list [4, 5 :: int]" "[4, 5]" "[]" list_next 0 "[4, 5 :: int]" "(<) 2" int 3]
    first_pulls_one [of "of_list ([] :: int list)" "[]" "[]" list_next 0 "[] :: int list" "(<) 2" int 3]
    of_list_runs [of "[4, 5 :: int]"] of_list_runs [of "[] :: int list"]
  show ?thesis
    by (simp add: next_item.simps)
qed

section \<open>Pagination\<close>

lemma paginate_runs_items:
  assumes "runs (source_next self) (iter self) xs it'"
  shows "map_option fst (collect (paginate self page per_page)) =
         Some (take (nat per_page) (drop (nat ((page - 1) * per_page)) xs))"
proof -
  from take_runs [OF skip_runs [OF assms, where n = "(page - 1) * per_page"], where n = per_page]
  obtain t where "runs (source_next (paginate self page per_page)) (iter (paginate self page per_page))
      (take (nat per_page) (drop (nat ((page - 1) * per_page)) xs)) t"
    unfolding paginate_def by blast
  then show ?thesis by (rule collect_items)
qed

text \<open>
  C5. \<open>paginate(page, per_page)\<close> is \<open>skip((page - 1) * per_page).take(per_page)\<close>, for
  every sequence; over a finite sequence it collects to that slice of the items, which
  is empty, not an error, for a page \<open>\<ge> 1\<close> that starts at or after the end; and
  \<open>range(100).paginate(page=3, per_page=10)\<close> collects to \<open>[20, \<dots>, 29]\<close>.
\<close>

theorem paginate_is_skip_take:
  "paginate self page per_page = take_lc (skip self ((page - 1) * per_page)) per_page \<and>
   (runs (source_next self) (iter self) xs it' \<longrightarrow>
      map_option fst (collect (paginate self page per_page)) =
      Some (take (nat per_page) (drop (nat ((page - 1) * per_page)) xs))) \<and>
   (runs (source_next self) (iter self) xs it' \<and> 1 \<le> page \<and>
    int (length xs) \<le> (page - 1) * per_page \<longrightarrow>
      map_option fst (collect (paginate self page per_page)) = Some []) \<and>
   map_sum id (\<lambda>r. map_option fst (collect (paginate r 3 10))) (range_lc 100 None 1) =
     Inr (Some [20, 21, 22, 23, 24, 25, 26, 27, 28, 29])"
proof (intro conjI impI)
  show "paginate self page per_page = take_lc (skip self ((page - 1) * per_page)) per_page"
    by (simp add: paginate_def)
next
  assume "runs (source_next self) (iter self) xs it'"
  then show "map_option fst (collect (paginate self page per_page)) =
      Some (take (nat per_page) (drop (nat ((page - 1) * per_page)) xs))"
    by (rule paginate_runs_items)
next
  assume a: "runs (source_next self) (iter self) xs it' \<and> 1 \<le> page \<and>
    int (length xs) \<le> (page - 1) * per_page"
  then have r: "runs (source_next self) (iter self) xs it'"
    and "int (length xs) \<le> (page - 1) * per_page"
    by simp_all
  then have len: "length xs \<le> nat ((page - 1) * per_page)"
    by linarith
  from paginate_runs_items [OF r, of page per_page] len
  show "map_option fst (collect (paginate self page per_page)) = Some []"
    by simp
next
  have "range_items 0 100 1 = map int [0 ..< 100]"
    by (simp add: range_items_def range_length_def)
  then have "take 10 (drop 20 (range_items 0 100 1)) = map int [20 ..< 30]"
    by (simp add: take_map drop_map)
  also have "\<dots> = [20, 21, 22, 23, 24, 25, 26, 27, 28, 29]"
    by (simp add: upt_rec)
  finally show "map_sum id (\<lambda>r. map_option fst (collect (paginate r 3 10))) (range_lc 100 None 1) =
     Inr (Some [20, 21, 22, 23, 24, 25, 26, 27, 28, 29])"
    using paginate_runs_items [OF of_range_runs, of "\<lparr>range_start = 0, range_stop = 100, range_step = 1\<rparr>" 3 10]
    by (simp add: range_lc_None)
qed

theorem paginate_is_skip_take_witness:
  "map_option fst (collect (paginate (of_list [1, 2, 3, 4, 5 :: int]) 2 2)) = Some [3, 4] \<and>
   map_option fst (collect (paginate (of_list [1, 2, 3, 4, 5 :: int]) 4 2)) = Some []"
  using paginate_is_skip_take [of "of_list [1, 2, 3, 4, 5 :: int]" 2 2 "[1, 2, 3, 4, 5]" "[]", THEN conjunct2]
    paginate_is_skip_take [of "of_list [1, 2, 3, 4, 5 :: int]" 4 2 "[1, 2, 3, 4, 5]" "[]", THEN conjunct2]
    of_list_runs [of "[1, 2, 3, 4, 5 :: int]"]
  by simp

section \<open>Grouping\<close>

lemma first_seen_snoc:
  "first_seen (ks @ [k]) = (if k \<in> set ks then first_seen ks else first_seen ks @ [k])"
  by (simp add: first_seen_def)

lemma set_first_seen: "set (first_seen ks) = set ks"
  by (simp add: first_seen_def)

lemma distinct_first_seen: "distinct (first_seen ks)"
  by (simp add: first_seen_def)

lemma update_new_key:
  "k \<notin> fst ` set al \<Longrightarrow> AList.update k v al = al @ [(k, v)]"
  by (induction al) auto

lemma map_entry_snoc_new:
  "k \<notin> fst ` set al \<Longrightarrow> AList.map_entry k f (al @ [(k, v)]) = al @ [(k, f v)]"
  by (induction al) auto

lemma map_entry_groups:
  "distinct ks \<Longrightarrow>
   AList.map_entry k (\<lambda>members. members @ [x]) (map (\<lambda>k'. (k', g k')) ks) =
   map (\<lambda>k'. (k', if k' = k then g k' @ [x] else g k')) ks"
  by (induction ks) auto

lemma filter_key_absent:
  "k \<notin> set (map key_func xs) \<Longrightarrow> filter (\<lambda>y. key_func y = k) xs = []"
  by (induction xs) auto

lemma group_by_body_groups:
  "group_by_body key_func (group_by_spec key_func xs) x = group_by_spec key_func (xs @ [x])"
proof (cases "key_func x \<in> set (map key_func xs)")
  case True
  then have "map_of (group_by_spec key_func xs) (key_func x) \<noteq> None"
    by (simp add: group_by_spec_def map_of_eq_None_iff image_image set_first_seen)
  then obtain members where "map_of (group_by_spec key_func xs) (key_func x) = Some members"
    by blast
  then have "group_by_body key_func (group_by_spec key_func xs) x =
      AList.map_entry (key_func x) (\<lambda>members. members @ [x]) (group_by_spec key_func xs)"
    by (simp add: group_by_body_def Let_def)
  also have "\<dots> = map (\<lambda>k'. (k', if k' = key_func x then filter (\<lambda>y. key_func y = k') xs @ [x]
                                    else filter (\<lambda>y. key_func y = k') xs))
                       (first_seen (map key_func xs))"
    unfolding group_by_spec_def by (rule map_entry_groups) (rule distinct_first_seen)
  also have "\<dots> = group_by_spec key_func (xs @ [x])"
    using True by (auto simp: group_by_spec_def first_seen_snoc)
  finally show ?thesis .
next
  case False
  then have new: "key_func x \<notin> fst ` set (group_by_spec key_func xs)"
    by (simp add: group_by_spec_def image_image set_first_seen)
  then have "map_of (group_by_spec key_func xs) (key_func x) = None"
    by (simp add: map_of_eq_None_iff)
  then have "group_by_body key_func (group_by_spec key_func xs) x =
      AList.map_entry (key_func x) (\<lambda>members. members @ [x])
        (AList.update (key_func x) [] (group_by_spec key_func xs))"
    by (simp add: group_by_body_def Let_def)
  also have "\<dots> = group_by_spec key_func xs @ [(key_func x, [x])]"
    using new by (simp add: update_new_key map_entry_snoc_new)
  also have "\<dots> = group_by_spec key_func (xs @ [x])"
  proof -
    from False have "filter (\<lambda>y. key_func y = key_func x) xs = []"
      by (rule filter_key_absent)
    moreover from False
    have "map (\<lambda>k. (k, filter (\<lambda>y. key_func y = k) xs @ (if key_func x = k then [x] else [])))
            (first_seen (map key_func xs)) =
          map (\<lambda>k. (k, filter (\<lambda>y. key_func y = k) xs)) (first_seen (map key_func xs))"
      by (auto simp: set_first_seen)
    ultimately show ?thesis
      using False by (auto simp: group_by_spec_def first_seen_snoc set_first_seen)
  qed
  finally show ?thesis .
qed

lemma foldl_group_by_body:
  "foldl (group_by_body key_func) [] xs = group_by_spec key_func xs"
proof (induction xs rule: rev_induct)
  case Nil
  then show ?case by (simp add: group_by_spec_def first_seen_def)
next
  case (snoc x xs)
  then show ?case by (simp add: group_by_body_groups)
qed

lemma mset_concat_groups:
  "distinct ks \<Longrightarrow> key_func ` set xs \<subseteq> set ks \<Longrightarrow>
   mset (concat (map (\<lambda>k. filter (\<lambda>x. key_func x = k) xs) ks)) = mset xs"
proof (induction xs)
  case Nil
  then show ?case by (induction ks) auto
next
  case (Cons x xs)
  have split: "mset (concat (map (\<lambda>k. filter (\<lambda>y. key_func y = k) (x # xs)) ks)) =
        mset (concat (map (\<lambda>k. if key_func x = k then [x] else []) ks)) +
        mset (concat (map (\<lambda>k. filter (\<lambda>y. key_func y = k) xs) ks))" for ks
    by (induction ks) auto
  have one: "distinct ks \<Longrightarrow> k \<in> set ks \<Longrightarrow>
        mset (concat (map (\<lambda>k'. if k = k' then [x] else []) ks)) = {#x#}" for k ks
    by (induction ks) (auto simp: )
  from Cons.prems have "key_func x \<in> set ks" and "key_func ` set xs \<subseteq> set ks"
    by auto
  with Cons.IH Cons.prems(1) one [of ks "key_func x"] show ?case
    unfolding split by simp
qed

lemma map_snd_group_by_spec:
  "map snd (group_by_spec key_func xs) =
   map (\<lambda>k. filter (\<lambda>x. key_func x = k) xs) (first_seen (map key_func xs))"
  by (simp add: group_by_spec_def comp_def)

lemma mset_concat_group_by_spec:
  "mset (concat (map snd (group_by_spec key_func xs))) = mset xs"
  unfolding map_snd_group_by_spec
  by (rule mset_concat_groups) (simp_all add: distinct_first_seen set_first_seen)

lemma group_by_runs:
  assumes "runs (source_next S) (iter S) xs it'"
  shows "group_by S key_func = Some (group_by_spec key_func xs, consumed S it')"
  using for_loop_runs [OF assms, of "group_by_body key_func" "[]"]
  by (simp add: group_by_def foldl_group_by_body)

text \<open>
  C6 says that the values of \<open>group_by\<close>, concatenated in the order of the keys, are the
  sequence itself. They are not when equal keys are apart: grouping \<open>[1, 2, 3]\<close> by
  parity gives the odd items \<open>[1, 3]\<close> first and then \<open>[2]\<close>.
\<close>

theorem group_by_concat_counterexample:
  "map_option fst (group_by (of_list [1, 2, 3 :: int]) even) = Some [(False, [1, 3]), (True, [2])] \<and>
   map_option (concat \<circ> map snd \<circ> fst) (group_by (of_list [1, 2, 3 :: int]) even) = Some [1, 3, 2] \<and>
   map_option (concat \<circ> map snd \<circ> fst) (group_by (of_list [1, 2, 3 :: int]) even) \<noteq> Some [1, 2, 3]"
  by (simp add: group_by_runs [OF of_list_runs] group_by_spec_def first_seen_def)

text \<open>
  C6, amended. For a finite sequence \<open>S\<close> and a key function, \<open>group_by\<close> returns one entry
  per key, the keys in the order of their first occurrence in \<open>S\<close>, each with the items of
  \<open>S\<close> sharing that key in the order of \<open>S\<close>; the values concatenated in the order of the
  keys are a rearrangement of \<open>S\<close>: the same items with the same multiplicities.
\<close>

theorem group_by_partition:
  assumes "runs (source_next S) (iter S) xs it'"
  shows "map_option fst (group_by S key_func) =
           Some (map (\<lambda>k. (k, filter (\<lambda>x. key_func x = k) xs)) (first_seen (map key_func xs))) \<and>
         map_option (mset \<circ> concat \<circ> map snd \<circ> fst) (group_by S key_func) = Some (mset xs)"
  using group_by_runs [OF assms, of key_func]
  by (simp add: mset_concat_group_by_spec) (simp add: group_by_spec_def)

theorem group_by_partition_witness:
  "map_option fst (group_by (of_list [3, 1, 4, 1, 5 :: int]) even) =
     Some [(False, [3, 1, 1, 5]), (True, [4])] \<and>
   map_option (mset \<circ> concat \<circ> map snd \<circ> fst) (group_by (of_list [3, 1, 4, 1, 5 :: int]) even) =
     Some (mset [3, 1, 4, 1, 5])"
  using group_by_partition [OF of_list_runs, of "[3, 1, 4, 1, 5 :: int]" even]
  by (simp add: first_seen_def)

section \<open>Terminal operators on an empty sequence\<close>

lemma py_all_runs_empty:
  "runs nxt it xs it' \<Longrightarrow> xs = [] \<Longrightarrow> py_all nxt it = Some (True, it')"
proof (induction rule: runs.induct)
  case (runs_Stop it it')
  then show ?case by (subst py_all.simps) simp
next
  case (runs_Skip it it' xs it'')
  then show ?case by (subst py_all.simps) simp
next
  case (runs_Yield it x it' xs it'')
  then show ?case by simp
qed

lemma py_any_runs_empty:
  "runs nxt it xs it' \<Longrightarrow> xs = [] \<Longrightarrow> py_any nxt it = Some (False, it')"
proof (induction rule: runs.induct)
  case (runs_Stop it it')
  then show ?case by (subst py_any.simps) simp
next
  case (runs_Skip it it' xs it'')
  then show ?case by (subst py_any.simps) simp
next
  case (runs_Yield it x it' xs it'')
  then show ?case by simp
qed

lemma reduce_empty:
  assumes "runs (source_next S) (iter S) [] it'"
  shows "map_option fst (reduce S reducer initial) = Some initial"
  using for_loop_runs [OF assms, of reducer initial] by (simp add: reduce_def)

lemma all_empty:
  assumes "runs (source_next S) (iter S) [] it'"
  shows "map_option fst (all_lc S predicate) = Some True"
proof -
  from runs_generator [OF runs_map_generator [OF assms, of predicate]]
  have "runs (generator (map_generator predicate (source_next S))) (False, iter S) [] (True, it')"
    by simp
  from py_all_runs_empty [OF this] show ?thesis
    by (simp add: all_lc_def)
qed

lemma any_empty:
  assumes "runs (source_next S) (iter S) [] it'"
  shows "map_option fst (any_lc S None) = Some False"
proof -
  from runs_generator [OF runs_map_generator [OF assms, of "\<lambda>x. True"]]
  have "runs (generator (map_generator (\<lambda>x. True) (source_next S))) (False, iter S) [] (True, it')"
    by simp
  from py_any_runs_empty [OF this] show ?thesis
    by (simp add: any_lc_def)
qed

text \<open>
  C7. On an empty sequence (one whose iterator signals exhaustion before handing over
  any item) the terminal operators return: \<open>reduce(reducer, initial)\<close> returns
  \<open>initial\<close> unchanged for every reducer and every initial value, \<open>all(predicate)\<close>
  returns true for every predicate, and \<open>any()\<close> without a predicate returns false.
\<close>

theorem empty_sequence_terminals:
  assumes "runs (source_next S) (iter S) [] it'"
  shows "map_option fst (reduce S reducer initial) = Some initial \<and>
         map_option fst (all_lc S predicate) = Some True \<and>
         map_option fst (any_lc S None) = Some False"
  using assms by (simp add: reduce_empty all_empty any_empty)

theorem empty_sequence_terminals_witness:
  "map_option fst (reduce (of_list ([] :: int list)) (+) (42 :: int)) = Some 42 \<and>
   map_option fst (all_lc (of_list ([] :: int list)) ((<) 0)) = Some True \<and>
   map_option fst (any_lc (of_list ([] :: int list)) None) = Some False \<and>
   map_option fst (reduce (filter_lc (of_list [- 1, - 2 :: int]) ((<) 0)) (+) (42 :: int)) = Some 42"
proof -
  have "runs (source_next (filter_lc (of_list [- 1, - 2 :: int]) ((<) 0)))
          (iter (filter_lc (of_list [- 1, - 2 :: int]) ((<) 0))) [] (True, [])"
    using filter_runs [OF of_list_runs, of "[- 1, - 2 :: int]" "(<) 0"] by simp
  from empty_sequence_terminals [OF this, of "(+)" "42 :: int"]
    empty_sequence_terminals [OF of_list_runs, of "(+)" "42 :: int" "(<) 0"]
  show ?thesis by simp
qed

section \<open>Iterating a collection twice\<close>

lemma generator_Stop_finished:
  "generator body s = (Stop, t) \<Longrightarrow> fst t"
  by (cases s; cases "body (snd s)"; cases "fst (body (snd s))")
     (auto simp: generator_def split: if_splits)

lemma runs_generator_finished:
  "runs nxt s xs t \<Longrightarrow> nxt = generator body \<Longrightarrow> fst t"
  by (induction rule: runs.induct) (auto dest: generator_Stop_finished)

lemma runs_finished_generator:
  "fst t \<Longrightarrow> runs (generator body) t [] t"
  by (cases t) (auto intro!: runs.runs_Stop simp: generator_def)

lemma collect_twice_reiterable:
  assumes "source_reiterable self"
  shows "collect_twice self = map_option (\<lambda>(a, self'). (a, a)) (collect self)"
proof (cases "collect self")
  case None
  then show ?thesis by (simp add: collect_twice_def)
next
  case (Some y)
  obtain a self' where y: "y = (a, self')" by (cases y)
  from collect_SomeD [OF Some [unfolded y]] assms have "self' = self"
    by (auto simp: consumed_def)
  with Some y show ?thesis by (simp add: collect_twice_def)
qed

lemma collect_twice_of_generator:
  "collect_twice (of_generator body frame) =
   map_option (\<lambda>(a, self'). (a, [])) (collect (of_generator body frame))"
proof (cases "collect (of_generator body frame)")
  case None
  then show ?thesis by (simp add: collect_twice_def)
next
  case (Some y)
  obtain a self' where y: "y = (a, self')" by (cases y)
  from collect_SomeD [OF Some [unfolded y]] obtain t
    where run: "runs (generator body) (False, frame) a t"
      and self': "self' = consumed (of_generator body frame) t"
    by (auto simp: iter_of_generator source_next_of_generator)
  from runs_generator_finished [OF run refl] have "fst t" .
  from self' have "source_next self' = generator body" and "iter self' = t"
    by (simp_all add: consumed_def of_generator_def of_iterator_def iter_def)
  with runs_finished_generator [OF \<open>fst t\<close>, of body]
  have "runs (source_next self') (iter self') [] t"
    by simp
  from collect_runs [OF this] Some y show ?thesis
    by (simp add: collect_twice_def)
qed

text \<open>
  C8 reads the single-pass invariant as: an operator-produced sequence is as restartable
  as the producer upstream of it, so that a \<open>map\<close> or \<open>filter\<close> over a restartable range
  restarts. In the code the range restarts, but \<open>map\<close> and \<open>filter\<close> over it do not: they
  wrap a generator, and a second \<open>collect()\<close> of the same object returns nothing.
\<close>

theorem restartable_wrapper_counterexample:
  "collect_twice (of_range \<lparr>range_start = 0, range_stop = 3, range_step = 1\<rparr>) =
     Some ([0, 1, 2], [0, 1, 2]) \<and>
   collect_twice (map_lc (of_range \<lparr>range_start = 0, range_stop = 3, range_step = 1\<rparr>) ((*) 2)) =
     Some ([0, 2, 4], []) \<and>
   collect_twice (filter_lc (of_range \<lparr>range_start = 0, range_stop = 3, range_step = 1\<rparr>) ((<) 0)) =
     Some ([1, 2], [])"
  by (simp add: collect_twice_def collect_def consumed_def iter_def of_range_def range_next_def
      map_lc_def filter_lc_def of_generator_def of_iterator_def generator_def map_generator_def
      filter_generator_def for_loop.simps)

text \<open>
  C8, amended. A collection that wraps a re-iterable source directly (a list, a range)
  restarts: collecting it twice returns the same items twice. A collection returned by
  \<open>map\<close> or \<open>filter\<close> is single-pass whatever its upstream is: once a \<open>collect()\<close> of it
  has returned, a second \<open>collect()\<close> of the same object returns no items.
\<close>

theorem single_pass_operators:
  "(source_reiterable self \<longrightarrow>
      collect_twice self = map_option (\<lambda>(a, self'). (a, a)) (collect self)) \<and>
   collect_twice (map_lc S transform) =
     map_option (\<lambda>(a, self'). (a, [])) (collect (map_lc S transform)) \<and>
   collect_twice (filter_lc S predicate) =
     map_option (\<lambda>(a, self'). (a, [])) (collect (filter_lc S predicate))"
  by (simp add: collect_twice_reiterable collect_twice_of_generator map_lc_def filter_lc_def)

theorem single_pass_operators_witness:
  "source_reiterable (of_list [1, 2, 3 :: int]) \<and>
   collect_twice (of_list [1, 2, 3 :: int]) = Some ([1, 2, 3], [1, 2, 3]) \<and>
   collect_twice (map_lc (of_list [1, 2, 3 :: int]) uminus) = Some ([- 1, - 2, - 3], [])"
  using single_pass_operators [of "of_list [1, 2, 3 :: int]" "of_list [1, 2, 3 :: int]" uminus]
    collect_runs [OF of_list_runs, of "[1, 2, 3 :: int]"]
    collect_runs [OF map_runs [OF of_list_runs], of "[1, 2, 3 :: int]" uminus]
  by (simp add: of_list_def)

section \<open>Skipping a non-positive count\<close>

lemma skip_generator_mirrors:
  assumes "n \<le> 0" and "0 \<le> i"
  shows "fst (generator (skip_generator n nxt) (False, i, it)) = fst (nxt it)"
    and "fst (nxt it) \<noteq> Stop \<Longrightarrow>
         \<exists>j\<ge>0. snd (generator (skip_generator n nxt) (False, i, it)) = (False, j, snd (nxt it))"
proof -
  obtain r it' where step: "nxt it = (r, it')" by (cases "nxt it")
  from assms step show "fst (generator (skip_generator n nxt) (False, i, it)) = fst (nxt it)"
    by (cases r) (simp_all add: generator_def skip_generator_def)
  assume "fst (nxt it) \<noteq> Stop"
  with assms step
  show "\<exists>j\<ge>0. snd (generator (skip_generator n nxt) (False, i, it)) = (False, j, snd (nxt it))"
    by (cases r) (simp_all add: generator_def skip_generator_def)
qed

lemma collect_skip_nonpositive:
  assumes "n \<le> 0"
  shows "map_option fst (collect (skip self n)) =
         map_option fst (collect (self :: ('a, 's) LazyCollection))"
proof -
  define R where "R = (\<lambda>(s :: bool \<times> int \<times> 's) (t :: 's). \<exists>i\<ge>0. s = (False, i, t))"
  have "map_option fst (for_loop (generator (skip_generator n (source_next self)))
            (\<lambda>acc item. acc @ [item]) (False, 0, iter self) []) =
        map_option fst (for_loop (source_next self) (\<lambda>acc item. acc @ [item]) (iter self) [])"
  proof (rule for_loop_bisimulation [where R = R])
    show "R (False, 0, iter self) (iter self)"
      by (simp add: R_def)
  next
    fix s t
    assume "R s t"
    then obtain i where i: "0 \<le> i" and s: "s = (False, i, t)"
      by (auto simp: R_def)
    from skip_generator_mirrors [OF assms i, of "source_next self" t] s
    show "fst (generator (skip_generator n (source_next self)) s) = fst (source_next self t) \<and>
          (fst (generator (skip_generator n (source_next self)) s) \<noteq> Stop \<longrightarrow>
           R (snd (generator (skip_generator n (source_next self)) s)) (snd (source_next self t)))"
      by (auto simp: R_def)
  qed
  then show ?thesis
    by (simp add: collect_def skip_def iter_of_generator source_next_of_generator
        option.map_comp comp_def case_prod_unfold)
qed


lemma collect_take_skip_nonpositive:
  assumes "n \<le> 0"
  shows "map_option fst (collect (take_lc (skip self n) k)) =
         map_option fst (collect (take_lc (self :: ('a, 's) LazyCollection) k))"
proof -
  define R where "R = (\<lambda>(s :: bool \<times> int \<times> bool \<times> int \<times> 's) (t :: bool \<times> int \<times> 's).
      \<exists>j i u. 0 \<le> i \<and> s = (False, j, False, i, u) \<and> t = (False, j, u))"
  let ?A = "generator (take_generator k (generator (skip_generator n (source_next self))))"
  let ?B = "generator (take_generator k (source_next self))"
  have "map_option fst (for_loop ?A (\<lambda>acc item. acc @ [item]) (False, 0, False, 0, iter self) []) =
        map_option fst (for_loop ?B (\<lambda>acc item. acc @ [item]) (False, 0, iter self) [])"
  proof (rule for_loop_bisimulation [where R = R])
    show "R (False, 0, False, 0, iter self) (False, 0, iter self)"
      by (simp add: R_def)
  next
    fix s t
    assume "R s t"
    then obtain j i u where i: "0 \<le> i" and s: "s = (False, j, False, i, u)" and t: "t = (False, j, u)"
      by (auto simp: R_def)
    obtain r u' where step: "source_next self u = (r, u')"
      by (cases "source_next self u")
    from assms i s t step
    show "fst (?A s) = fst (?B t) \<and> (fst (?A s) \<noteq> Stop \<longrightarrow> R (snd (?A s)) (snd (?B t)))"
      by (cases r) (auto simp: R_def generator_def take_generator_def skip_generator_def)
  qed
  then show ?thesis
    by (simp add: collect_def skip_def take_lc_def iter_of_generator source_next_of_generator
        option.map_comp comp_def case_prod_unfold)
qed

text \<open>
  C9. For every sequence, finite or not, and every \<open>n \<le> 0\<close>, \<open>skip(n)\<close> hands over every
  upstream item unchanged and in order: collecting \<open>skip(n)\<close> returns what collecting the
  sequence returns (and does not return exactly when that does not), and every bounded
  prefix \<open>take(k)\<close> of \<open>skip(n)\<close> is the same prefix of the sequence itself.
\<close>

theorem skip_nonpositive_keeps_all:
  assumes "n \<le> 0"
  shows "map_option fst (collect (skip self n)) = map_option fst (collect self) \<and>
         map_option fst (collect (take_lc (skip self n) k)) = map_option fst (collect (take_lc self k))"
  using assms by (simp add: collect_skip_nonpositive collect_take_skip_nonpositive)

theorem skip_nonpositive_keeps_all_witness:
  "(- 3 :: int) \<le> 0 \<and>
   map_option fst (collect (skip (of_list [7, 8, 9 :: int]) (- 3))) = Some [7, 8, 9] \<and>
   map_option fst (collect (take_lc (skip (of_iterator (endless_next int) 0) (- 3)) 2)) = Some [0, 1]"
  using skip_nonpositive_keeps_all [of "- 3" "of_list [7, 8, 9 :: int]"]
    skip_nonpositive_keeps_all [of "- 3" "of_iterator (endless_next int) 0" 2]
    collect_items [OF of_list_runs, of "[7, 8, 9 :: int]"]
    take_draws_endless [of int 2]
  by (simp add: upt_rec)

section \<open>The single-argument range\<close>

text \<open>
  C10. Called with \<open>stop\<close> omitted, \<open>range\<close> builds the standard numeric
  \<open>range(0, start, step)\<close> (and is refused with it when \<open>step\<close> is zero): it collects to
  the items \<open>0, step, 2 * step, \<dots>\<close> short of \<open>start\<close>. A zero or negative single argument
  gives an empty sequence, and a step given with a single argument is applied:
  \<open>range(7, step=2)\<close> collects to \<open>[0, 2, 4, 6]\<close>.
\<close>

theorem range_single_argument:
  "range_lc start None step = range_lc 0 (Some start) step \<and>
   (step \<noteq> 0 \<longrightarrow>
      map_sum id (map_option fst \<circ> collect) (range_lc start None step) =
      Inr (Some (range_items 0 start step))) \<and>
   (start \<le> 0 \<longrightarrow>
      map_sum id (map_option fst \<circ> collect) (range_lc start None 1) = Inr (Some [])) \<and>
   map_sum id (map_option fst \<circ> collect) (range_lc 7 None 2) = Inr (Some [0, 2, 4, 6])"
  by (simp add: range_lc_None range_lc_Some collect_of_range)
     (simp add: range_items_def range_length_def upt_rec)

theorem range_single_argument_witness:
  "(3 :: int) \<noteq> 0 \<and> (- 4 :: int) \<le> 0 \<and>
   map_sum id (map_option fst \<circ> collect) (range_lc 10 None 3) = Inr (Some [0, 3, 6, 9]) \<and>
   map_sum id (map_option fst \<circ> collect) (range_lc (- 4) None 1) = Inr (Some []) \<and>
   map_sum id (map_option fst \<circ> collect) (range_lc (- 4) None (- 1)) = Inr (Some [0, - 1, - 2, - 3])"
  using range_single_argument [of 10 3, THEN conjunct2]
    range_single_argument [of "- 4" 1, THEN conjunct2]
    range_single_argument [of "- 4" "- 1", THEN conjunct2]
  by (simp add: range_items_def range_length_def upt_rec)

end
